theory Spec2Isabelle
  imports Main "HOL-Library.Sublist"
begin

section \<open>Errors raised by the proxy core\<close>

text \<open>
  Every \<^verbatim>\<open>throw\<close> of the source is a value of this type:
  \<^item> \<open>TypeError\<close>: a property read or a method call on \<^verbatim>\<open>undefined\<close>/\<^verbatim>\<open>null\<close>;
  \<^item> \<open>InvalidKind\<close>: \<^verbatim>\<open>new Error('type must be `web` or `ws`')\<close>;
  \<^item> \<open>NoSuchPass\<close>: \<^verbatim>\<open>new Error('No such pass')\<close>.
\<close>

datatype error = TypeError | InvalidKind | NoSuchPass

section \<open>JavaScript strings\<close>

text \<open>
  A string is a list of characters. A character of a header or of a URL is one code
  unit below 256 (Node decodes header bytes as Latin-1), which is what \<open>char\<close> holds.
\<close>

text \<open>\<^verbatim>\<open>\s\<close> of a regular expression, on code units below 256.\<close>

definition is_space :: "char \<Rightarrow> bool" where
  "is_space c \<longleftrightarrow>
     c \<in> set [CHR 0x09, CHR 0x0A, CHR 0x0B, CHR 0x0C, CHR 0x0D, CHR '' '', CHR 0xA0]"

text \<open>\<^verbatim>\<open>\d\<close> of a regular expression.\<close>

definition is_digit :: "char \<Rightarrow> bool" where
  "is_digit c \<longleftrightarrow> c \<in> set ''0123456789''"

text \<open>
  \<^verbatim>\<open>toLowerCase\<close> on one code unit below 256: the letters A to Z and the Latin-1
  capitals 0xC0 to 0xDE (without the multiplication sign 0xD7) move up by 32. Two such
  code units are equal under the \<^verbatim>\<open>i\<close> flag of a regular expression exactly when
  their lower-case forms are equal.
\<close>

definition toLowerCase_char :: "char \<Rightarrow> char" where
  "toLowerCase_char c =
     (let n = (of_char c :: nat) in
      if (65 \<le> n \<and> n \<le> 90) \<or> (192 \<le> n \<and> n \<le> 222 \<and> n \<noteq> 215)
      then char_of (n + 32) else c)"

definition toLowerCase :: "string \<Rightarrow> string" where
  "toLowerCase s = map toLowerCase_char s"

text \<open>\<^verbatim>\<open>s.split(sep)\<close> for a separator of one character: never the empty array.\<close>

fun split_on :: "char \<Rightarrow> string \<Rightarrow> string list" where
  "split_on sep [] = [[]]"
| "split_on sep (c # cs) =
     (if c = sep then [] # split_on sep cs
      else (case split_on sep cs of
              [] \<Rightarrow> [[c]]
            | seg # segs \<Rightarrow> (c # seg) # segs))"

text \<open>\<^verbatim>\<open>array.join(sep)\<close> on an array of strings.\<close>

fun join_with :: "string \<Rightarrow> string list \<Rightarrow> string" where
  "join_with sep [] = []"
| "join_with sep [s] = s"
| "join_with sep (s # t # ss) = s @ sep @ join_with sep (t # ss)"

text \<open>
  \<^verbatim>\<open>s.replace(/\/+/g, "/")\<close>: every maximal run of slashes becomes one slash.
\<close>

function collapse_slashes :: "string \<Rightarrow> string" where
  "collapse_slashes [] = []"
| "collapse_slashes (c # cs) =
     (if c = CHR ''/''
      then CHR ''/'' # collapse_slashes (dropWhile (\<lambda>d. d = CHR ''/'') cs)
      else c # collapse_slashes cs)"
  by pat_completeness auto
termination
  by (relation "measure length") (auto intro: le_imp_less_Suc length_dropWhile_le)

text \<open>
  \<^verbatim>\<open>s.replace(pat, rep)\<close> with a string pattern: only the first occurrence is
  replaced. (The replacement strings used below contain no \<^verbatim>\<open>$\<close>, so they are
  inserted literally.)
\<close>

fun replace_first :: "string \<Rightarrow> string \<Rightarrow> string \<Rightarrow> string" where
  "replace_first pat rep [] = (if pat = [] then rep else [])"
| "replace_first pat rep (c # cs) =
     (if prefix pat (c # cs) then rep @ drop (length pat) (c # cs)
      else c # replace_first pat rep cs)"




definition CRLF :: string where
  "CRLF = [CHR 0x0D, CHR 0x0A]"

section \<open>The server facade: pass lists and error listeners\<close>

text \<open>
  A pass is a JavaScript function; the registry only reads its \<^verbatim>\<open>name\<close> property.
  The function itself is kept as an opaque value of type \<open>'f\<close>.
\<close>

record 'f pass =
  name :: string
  fn :: 'f

text \<open>
  A listener of the \<^verbatim>\<open>error\<close> event is either the server's own \<^verbatim>\<open>onError\<close> method,
  registered by the constructor, or a handler attached from outside. An outside handler
  is a function of the emitted error that returns normally (\<open>None\<close>) or throws
  (\<open>Some e\<close>).
\<close>

datatype 'e listener = OnError | External "'e \<Rightarrow> 'e option"

record ('f, 'e) ProxyServer =
  webPasses :: "'f pass list"
  wsPasses :: "'f pass list"
  error_listeners :: "'e listener list"

text \<open>
  The constructor: the two pass lists are the values of the two pass tables, which
  are arguments here (the table of \<^verbatim>\<open>passes/web-incoming\<close> is not modelled), and
  \<^verbatim>\<open>this.on("error", this.onError, this)\<close> registers the built-in listener.
\<close>

definition new_ProxyServer :: "'f pass list \<Rightarrow> 'f pass list \<Rightarrow> ('f, 'e) ProxyServer" where
  "new_ProxyServer web ws =
     \<lparr>webPasses = web, wsPasses = ws, error_listeners = [OnError]\<rparr>"

subsection \<open>before and after\<close>

text \<open>
  \<^verbatim>\<open>let i = false; passes.forEach(function (v, idx) { if (v.name === passName) i = idx; });\<close>
  The scan visits every element; \<open>None\<close> stands for \<^verbatim>\<open>false\<close>.
\<close>

definition scan_passes :: "'f pass list \<Rightarrow> string \<Rightarrow> nat option" where
  "scan_passes passes passName =
     fold (\<lambda>(idx, v) i. if name v = passName then Some idx else i)
          (enumerate 0 passes) None"

text \<open>\<^verbatim>\<open>passes.splice(start, 0, callback)\<close>: insert at \<open>start\<close>, delete nothing.\<close>

definition splice0 :: "'a list \<Rightarrow> nat \<Rightarrow> 'a \<Rightarrow> 'a list" where
  "splice0 passes start callback = take start passes @ callback # drop start passes"

definition select_passes :: "('f, 'e) ProxyServer \<Rightarrow> string \<Rightarrow> 'f pass list" where
  "select_passes self kind = (if kind = ''ws'' then wsPasses self else webPasses self)"

text \<open>The list is mutated in place: the server afterwards holds the new list.\<close>

definition store_passes ::
  "('f, 'e) ProxyServer \<Rightarrow> string \<Rightarrow> 'f pass list \<Rightarrow> ('f, 'e) ProxyServer" where
  "store_passes self kind passes =
     (if kind = ''ws'' then self\<lparr>wsPasses := passes\<rparr> else self\<lparr>webPasses := passes\<rparr>)"

definition before ::
  "('f, 'e) ProxyServer \<Rightarrow> string \<Rightarrow> string \<Rightarrow> 'f pass \<Rightarrow> error + ('f, 'e) ProxyServer" where
  "before self kind passName callback =
     (if kind \<noteq> ''ws'' \<and> kind \<noteq> ''web'' then Inl InvalidKind
      else
        let passes = select_passes self kind in
        case scan_passes passes passName of
          None \<Rightarrow> Inl NoSuchPass
        | Some i \<Rightarrow> Inr (store_passes self kind (splice0 passes i callback)))"

text \<open>
  \<^verbatim>\<open>passes.splice(i++, 0, callback)\<close>: the post-increment hands the old value of \<open>i\<close>
  to \<^verbatim>\<open>splice\<close> and increments the local variable afterwards; the incremented
  value \<open>i'\<close> is never read.
\<close>

definition after ::
  "('f, 'e) ProxyServer \<Rightarrow> string \<Rightarrow> string \<Rightarrow> 'f pass \<Rightarrow> error + ('f, 'e) ProxyServer" where
  "after self kind passName callback =
     (if kind \<noteq> ''ws'' \<and> kind \<noteq> ''web'' then Inl InvalidKind
      else
        let passes = select_passes self kind in
        case scan_passes passes passName of
          None \<Rightarrow> Inl NoSuchPass
        | Some i \<Rightarrow>
            let start = i; i' = i + 1 in
            Inr (store_passes self kind (splice0 passes start callback)))"

text \<open>
  The WebSocket pass table of the source, in the order of its keys. The functions are
  opaque here; each is numbered by its position in the table.
\<close>

definition ws_pass_table :: "nat pass list" where
  "ws_pass_table =
     [\<lparr>name = ''checkMethodAndHeader'', fn = 0\<rparr>,
      \<lparr>name = ''xHeaders'', fn = 1\<rparr>,
      \<lparr>name = ''stream'', fn = 2\<rparr>]"

subsection \<open>The error event\<close>





section \<open>Requests, options and URLs\<close>

text \<open>
  \<^verbatim>\<open>req.connection\<close>: the two properties \<^verbatim>\<open>hasEncryptedConnection\<close> reads, by their
  truthiness.
\<close>

record connection =
  encrypted :: bool
  pair :: bool

text \<open>
  The inbound request. \<open>req_headers\<close> is \<^verbatim>\<open>req.headers\<close> (the keys are lower-case),
  \<open>req_connection\<close> is \<^verbatim>\<open>req.connection\<close> (\<open>None\<close>: undefined) and \<open>req_remoteAddress\<close>
  is \<^verbatim>\<open>req.socket.remoteAddress\<close> (\<open>None\<close>: undefined).
\<close>

record IncomingMessage =
  req_method :: string
  req_url :: string
  req_headers :: "string \<rightharpoonup> string"
  req_connection :: "connection option"
  req_remoteAddress :: "string option"

text \<open>
  A port is a string when it comes from a parsed URL and a number when it is one of the
  defaults 443 and 80 (or is given as a number in a target object).
\<close>

datatype js_port = PortString string | PortNumber nat




text \<open>
  A resolved target or forward URL (\<^verbatim>\<open>options.target\<close> after \<^verbatim>\<open>url.parse\<close>, or the
  object the caller gave). \<open>None\<close> is \<^verbatim>\<open>null\<close>/\<^verbatim>\<open>undefined\<close>.
\<close>

record Url =
  protocol :: "string option"
  host :: "string option"
  hostname :: "string option"
  port :: "js_port option"
  path :: "string option"
  socketPath :: "string option"
  pfx :: "string option"
  key :: "string option"
  passphrase :: "string option"
  cert :: "string option"
  ca :: "string option"
  ciphers :: "string option"
  secureProtocol :: "string option"

text \<open>
  The options the code below reads. \<open>opt_method\<close>, \<open>opt_headers\<close> and \<open>opt_ca\<close> are
  \<^verbatim>\<open>options.method\<close>, \<^verbatim>\<open>options.headers\<close> and \<^verbatim>\<open>options.ca\<close>; agents are opaque
  handles.
\<close>

record proxyOptions =
  target :: "Url option"
  forward :: "Url option"
  opt_method :: "string option"
  opt_headers :: "(string \<rightharpoonup> string) option"
  auth :: "string option"
  opt_ca :: "string option"
  secure :: "bool option"
  httpAgent :: "nat option"
  httpsAgent :: "nat option"
  localAddress :: "string option"
  prependPath :: "bool option"
  toProxy :: bool
  ignorePath :: bool
  changeOrigin :: bool
  xfwd :: bool


section \<open>common.ts\<close>




subsection \<open>urlJoin\<close>

text \<open>
  The chain \<^verbatim>\<open>.replace(/\/+/g, "/").replace("http:/", "http://").replace("https:/", "https://")\<close>.
\<close>

definition normalize_slashes :: "string \<Rightarrow> string" where
  "normalize_slashes s =
     replace_first ''https:/'' ''https://''
       (replace_first ''http:/'' ''http://'' (collapse_slashes s))"

text \<open>
  \<^verbatim>\<open>urlJoin(...arg)\<close> on strings. With no argument \<^verbatim>\<open>last\<close> is undefined and
  \<^verbatim>\<open>last.split\<close> throws. \<^verbatim>\<open>lastSegs.shift()\<close> takes the first segment off
  \<^verbatim>\<open>lastSegs\<close> and stores it as the last argument; \<^verbatim>\<open>filter(Boolean)\<close> drops the
  empty strings.
\<close>

definition urlJoin :: "string list \<Rightarrow> error + string" where
  "urlJoin arg =
     (if arg = [] then Inl TypeError
      else
        let last' = last arg;
            lastSegs = split_on CHR ''?'' last';
            args = (case lastSegs of
                      [] \<Rightarrow> butlast arg
                    | seg # _ \<Rightarrow> butlast arg @ [seg]);
            lastSegs = tl lastSegs;
            retSegs = [normalize_slashes
                         (join_with ''/'' (filter (\<lambda>a. a \<noteq> []) args))]
        in Inr (join_with ''?'' (retSegs @ lastSegs)))"

subsection \<open>setupOutgoing\<close>










subsection \<open>getPort\<close>

text \<open>
  \<^verbatim>\<open>Boolean(req.connection?.encrypted || req.connection?.pair)\<close>
\<close>

definition hasEncryptedConnection :: "IncomingMessage \<Rightarrow> bool" where
  "hasEncryptedConnection req =
     (case req_connection req of None \<Rightarrow> False | Some c \<Rightarrow> encrypted c \<or> pair c)"

text \<open>
  \<^verbatim>\<open>s.match(/:(\d+)/)\<close>: the leftmost colon that is followed by a digit matches, and
  the group takes the longest run of digits behind it. The result is the group.
\<close>

fun match_port :: "string \<Rightarrow> string option" where
  "match_port [] = None"
| "match_port (c # cs) =
     (if c = CHR '':'' \<and> takeWhile is_digit cs \<noteq> [] then Some (takeWhile is_digit cs)
      else match_port cs)"

text \<open>
  \<^verbatim>\<open>var res = req.headers.host ? req.headers.host.match(/:(\d+)/) : "";\<close>
  \<^verbatim>\<open>return res ? res[1] : hasEncryptedConnection(req) ? "443" : "80";\<close>
  An empty Host header is falsy.
\<close>

definition getPort :: "IncomingMessage \<Rightarrow> string" where
  "getPort req =
     (let res = (case req_headers req ''host'' of
                   None \<Rightarrow> None
                 | Some h \<Rightarrow> if h \<noteq> [] then match_port h else None)
      in case res of
           Some digits \<Rightarrow> digits
         | None \<Rightarrow> if hasEncryptedConnection req then ''443'' else ''80'')"

subsection \<open>rewriteCookieProperty\<close>

text \<open>
  The regular expression \<^verbatim>\<open>new RegExp("(;\\s*" + property + "=)([^;]+)", "i")\<close>.
  The property becomes part of the source of the pattern. The functions below give
  the pattern for a property that is a plain word (\<open>plain_word\<close>: letters, digits,
  hyphen and underscore, as in \<^verbatim>\<open>domain\<close> and \<^verbatim>\<open>path\<close>), where every character of
  the property stands for itself; a property with other characters is outside what
  they describe.
\<close>

definition plain_word :: "string \<Rightarrow> bool" where
  "plain_word property \<longleftrightarrow>
     list_all (\<lambda>c. c \<in> set (''abcdefghijklmnopqrstuvwxyz'' @ ''ABCDEFGHIJKLMNOPQRSTUVWXYZ''
                              @ ''0123456789'' @ ''-_'')) property"

text \<open>
  \<open>match_property\<close> matches \<^verbatim>\<open><property>=([^;]+)\<close> at the start of a string and gives
  the matched text up to the equals sign and the group: the longest run of characters
  other than the semicolon, which must not be empty.
\<close>

definition match_property :: "string \<Rightarrow> string \<Rightarrow> (string \<times> string) option" where
  "match_property property s =
     (let n = length property in
      if n \<le> length s \<and> toLowerCase (take n s) = toLowerCase property
      then (case drop n s of
              [] \<Rightarrow> None
            | c # rest \<Rightarrow>
                if c = CHR ''='' \<and> takeWhile (\<lambda>d. d \<noteq> CHR '';'') rest \<noteq> []
                then Some (take n s @ ''='', takeWhile (\<lambda>d. d \<noteq> CHR '';'') rest)
                else None)
      else None)"

text \<open>
  \<^verbatim>\<open>\s*\<close> in front of it: greedy, so a white-space character is consumed first, and
  only when the rest then fails is the property tried at this position.
\<close>

fun match_spaces :: "string \<Rightarrow> string \<Rightarrow> (string \<times> string) option" where
  "match_spaces property [] = match_property property []"
| "match_spaces property (c # cs) =
     (if is_space c
      then (case match_spaces property cs of
              Some (p, v) \<Rightarrow> Some (c # p, v)
            | None \<Rightarrow> match_property property (c # cs))
      else match_property property (c # cs))"

text \<open>
  The leftmost match in the header: the text in front of the match, the first group
  (the semicolon, the white space, the property and the equals sign), the second group
  (the value) and the text behind the match.
\<close>

fun find_property :: "string \<Rightarrow> string \<Rightarrow> (string \<times> string \<times> string \<times> string) option" where
  "find_property property [] = None"
| "find_property property (c # cs) =
     (case (if c = CHR '';'' then match_spaces property cs else None) of
        Some (p, v) \<Rightarrow> Some ([], c # p, v, drop (length p + length v) cs)
      | None \<Rightarrow>
          (case find_property property cs of
             None \<Rightarrow> None
           | Some (front, prefix', v, behind) \<Rightarrow> Some (c # front, prefix', v, behind)))"

text \<open>
  The config is a plain object: its own properties are a map from keys to values
  (\<open>None\<close> is \<^verbatim>\<open>null\<close>), and it inherits the members of \<^verbatim>\<open>Object.prototype\<close>. The
  table gives the names of these members and the text that string concatenation
  yields for each in Node: the source text of a native function, and
  \<^verbatim>\<open>[object Object]\<close> for the prototype object itself.
\<close>

definition Object_prototype :: "(string \<times> string) list" where
  "Object_prototype =
     [(''constructor'', ''function Object() { [native code] }''),
      (''__defineGetter__'', ''function __defineGetter__() { [native code] }''),
      (''__defineSetter__'', ''function __defineSetter__() { [native code] }''),
      (''hasOwnProperty'', ''function hasOwnProperty() { [native code] }''),
      (''__lookupGetter__'', ''function __lookupGetter__() { [native code] }''),
      (''__lookupSetter__'', ''function __lookupSetter__() { [native code] }''),
      (''isPrototypeOf'', ''function isPrototypeOf() { [native code] }''),
      (''propertyIsEnumerable'', ''function propertyIsEnumerable() { [native code] }''),
      (''toString'', ''function toString() { [native code] }''),
      (''valueOf'', ''function valueOf() { [native code] }''),
      (''__proto__'', ''[object Object]''),
      (''toLocaleString'', ''function toLocaleString() { [native code] }'')]"

text \<open>\<^verbatim>\<open>k in config\<close>: an own key, or an inherited name.\<close>

definition has_property :: "(string \<rightharpoonup> string option) \<Rightarrow> string \<Rightarrow> bool" where
  "has_property config k \<longleftrightarrow> config k \<noteq> None \<or> map_of Object_prototype k \<noteq> None"

text \<open>
  \<^verbatim>\<open>config[k]\<close> as a string, with \<open>None\<close> for \<^verbatim>\<open>null\<close> and \<^verbatim>\<open>undefined\<close>: the own
  value if the key is an own key, otherwise the inherited member. Every inherited
  member is truthy.
\<close>

definition get_property :: "(string \<rightharpoonup> string option) \<Rightarrow> string \<Rightarrow> string option" where
  "get_property config k =
     (case config k of
        Some v \<Rightarrow> v
      | None \<Rightarrow> map_of Object_prototype k)"

text \<open>
  The replacer function of the source; \<open>finish\<close> is its part from
  \<^verbatim>\<open>if (newValue)\<close> on.
\<close>

definition replacer ::
  "(string \<rightharpoonup> string option) \<Rightarrow> string \<Rightarrow> string \<Rightarrow> string \<Rightarrow> string" where
  "replacer config match' prefix' previousValue =
     (let finish = (\<lambda>newValue.
            case newValue of
              None \<Rightarrow> []
            | Some v \<Rightarrow> if v \<noteq> [] then prefix' @ v else [])
      in if has_property config previousValue
         then finish (get_property config previousValue)
         else if has_property config ''*''
         then finish (get_property config ''*'')
         else match')"

text \<open>A \<^verbatim>\<open>Set-Cookie\<close> header: one string, or an array.\<close>

datatype cookie_header = HeaderString string | HeaderArray "cookie_header list"

fun rewriteCookieProperty ::
  "cookie_header \<Rightarrow> (string \<rightharpoonup> string option) \<Rightarrow> string \<Rightarrow> cookie_header" where
  "rewriteCookieProperty (HeaderArray header) config property =
     HeaderArray (map (\<lambda>headerElement. rewriteCookieProperty headerElement config property) header)"
| "rewriteCookieProperty (HeaderString header) config property =
     HeaderString
       (case find_property property header of
          None \<Rightarrow> header
        | Some (front, prefix', previousValue, behind) \<Rightarrow>
            front @ replacer config (prefix' @ previousValue) prefix' previousValue @ behind)"

subsection \<open>isWebsocket\<close>

text \<open>
  \<^verbatim>\<open>req.method === "GET" && req.headers.upgrade && req.headers.upgrade.toLowerCase() === "websocket"\<close>,
  by its truthiness: an absent or empty header is falsy.
\<close>

definition isWebsocket :: "IncomingMessage \<Rightarrow> bool" where
  "isWebsocket req \<longleftrightarrow>
     req_method req = ''GET'' \<and>
     (case req_headers req ''upgrade'' of
        None \<Rightarrow> False
      | Some u \<Rightarrow> u \<noteq> [] \<and> toLowerCase u = ''websocket'')"

section \<open>Server.all\<close>

text \<open>The entry point that \<^verbatim>\<open>all\<close> calls: \<^verbatim>\<open>this.web(args)\<close> or \<^verbatim>\<open>this.ws({...})\<close>.\<close>

datatype pipeline = Web | Ws

definition all_dispatch :: "IncomingMessage \<Rightarrow> pipeline" where
  "all_dispatch req = (let ws = isWebsocket req in if \<not> ws then Web else Ws)"

section \<open>passes/ws-incoming.ts\<close>

subsection \<open>xHeaders\<close>

text \<open>
  \<^verbatim>\<open>req.headers[k] = (req.headers[k] || "") + (req.headers[k] ? "," : "") + v\<close>
\<close>

definition append_header :: "(string \<rightharpoonup> string) \<Rightarrow> string \<Rightarrow> string \<Rightarrow> (string \<rightharpoonup> string)" where
  "append_header hs k v =
     hs(k \<mapsto> (case hs k of None \<Rightarrow> [] | Some old \<Rightarrow> old) @
             (case hs k of None \<Rightarrow> [] | Some old \<Rightarrow> if old \<noteq> [] then '','' else []) @ v)"

text \<open>
  The pass changes the headers of the request in place and returns nothing. An
  undefined remote address is printed as \<^verbatim>\<open>undefined\<close> by the concatenation.
\<close>

definition xHeaders :: "IncomingMessage \<Rightarrow> proxyOptions \<Rightarrow> IncomingMessage" where
  "xHeaders req options =
     (if \<not> xfwd options then req
      else
        let values = [(''for'', (case req_remoteAddress req of
                                   None \<Rightarrow> ''undefined'' | Some a \<Rightarrow> a)),
                      (''port'', getPort req),
                      (''proto'', if hasEncryptedConnection req then ''wss'' else ''ws'')]
        in req\<lparr>req_headers :=
                 fold (\<lambda>(header, v) hs. append_header hs (''x-forwarded-'' @ header) v)
                      values (req_headers req)\<rparr>)"

subsection \<open>stream: the handshake written to the client\<close>

text \<open>A header value of the upstream response: a string, or an array of strings.\<close>

datatype header_value = Single string | Multiple "string list"

text \<open>
  \<^verbatim>\<open>createHttpHeader(line, headers)\<close>. The headers object is the list of its entries in
  the order of \<^verbatim>\<open>Object.keys\<close>; \<^verbatim>\<open>headers[key]\<close> looks the key up.
\<close>

definition createHttpHeader :: "string \<Rightarrow> (string \<times> header_value) list \<Rightarrow> string" where
  "createHttpHeader line headers =
     join_with CRLF
       (fold (\<lambda>key header.
                case map_of headers key of
                  Some (Multiple value) \<Rightarrow> header @ map (\<lambda>v. key @ '': '' @ v) value
                | Some (Single value) \<Rightarrow> header @ [key @ '': '' @ value]
                | None \<Rightarrow> header @ [key @ '': undefined''])
             (map fst headers) [line])
     @ CRLF @ CRLF"

text \<open>
  What the handler of the upstream request's \<^verbatim>\<open>upgrade\<close> event writes to the client
  socket before it pipes the two sockets into each other.
\<close>

definition upgrade_write :: "(string \<times> header_value) list \<Rightarrow> string" where
  "upgrade_write upstream_headers =
     createHttpHeader ''HTTP/1.1 101 Switching Protocols'' upstream_headers"

section \<open>Vocabulary of the properties\<close>

text \<open>
  The lines of a headers object as the specification describes them: one line
  \<^verbatim>\<open>Key: Value\<close> per header, in the order of the object, and one line per element for
  a header whose value is an array.
\<close>

fun header_lines :: "string \<times> header_value \<Rightarrow> string list" where
  "header_lines (k, Single v) = [k @ '': '' @ v]"
| "header_lines (k, Multiple vs) = map (\<lambda>v. k @ '': '' @ v) vs"

text \<open>Position \<open>i\<close> of a string and the next position both hold a slash.\<close>

definition adjacent_slashes_at :: "string \<Rightarrow> nat \<Rightarrow> bool" where
  "adjacent_slashes_at s i \<longleftrightarrow>
     Suc i < length s \<and> s ! i = CHR ''/'' \<and> s ! Suc i = CHR ''/''"


text \<open>Position \<open>i\<close> of a string holds a colon and the next position holds a digit.\<close>

definition colon_digit_at :: "string \<Rightarrow> nat \<Rightarrow> bool" where
  "colon_digit_at s i \<longleftrightarrow> Suc i < length s \<and> s ! i = CHR '':'' \<and> is_digit (s ! Suc i)"

text \<open>
  The shape of a match of \<^verbatim>\<open>/(;\s*<property>=)([^;]+)/i\<close>: the first group is a semicolon,
  white space, the property name in any case and an equals sign; the second group is
  a non-empty value without semicolon that ends at a semicolon or at the end of the
  header.
\<close>

definition is_attribute_match :: "string \<Rightarrow> string \<Rightarrow> string \<Rightarrow> string \<Rightarrow> bool" where
  "is_attribute_match property prefix' v behind \<longleftrightarrow>
     (\<exists>ws n. prefix' = CHR '';'' # ws @ n @ ''=''
        \<and> list_all is_space ws \<and> toLowerCase n = toLowerCase property)
     \<and> v \<noteq> [] \<and> CHR '';'' \<notin> set v \<and> (behind = [] \<or> hd behind = CHR '';'')"

section \<open>Empty objects\<close>


definition blank_options :: proxyOptions where
  "blank_options =
     \<lparr>target = None, forward = None, opt_method = None, opt_headers = None, auth = None,
      opt_ca = None, secure = None, httpAgent = None, httpsAgent = None,
      localAddress = None, prependPath = None, toProxy = False, ignorePath = False,
      changeOrigin = False, xfwd = False\<rparr>"


text \<open>A \<^verbatim>\<open>GET /\<close> request without headers, on a plain connection.\<close>

definition blank_request :: IncomingMessage where
  "blank_request =
     \<lparr>req_method = ''GET'', req_url = ''/'', req_headers = Map.empty,
      req_connection = None, req_remoteAddress = None\<rparr>"

section \<open>Properties of the pass registry\<close>

lemma scan_passes_fold:
  "fold (\<lambda>(idx, v) i. if name v = passName then Some idx else i) (enumerate n ps) acc =
     (if \<exists>v \<in> set ps. name v = passName
      then Some (n + (GREATEST k. k < length ps \<and> name (ps ! k) = passName))
      else acc)"
proof (induction ps arbitrary: n acc)
  case Nil
  show ?case by simp
next
  case (Cons p ps)
  show ?case
  proof (cases "\<exists>v \<in> set ps. name v = passName")
    case True
    then obtain j where j: "j < length ps" "name (ps ! j) = passName"
      by (metis in_set_conv_nth)
    let ?P = "\<lambda>k. k < length ps \<and> name (ps ! k) = passName"
    let ?Q = "\<lambda>k. k < length (p # ps) \<and> name ((p # ps) ! k) = passName"
    have bP: "\<forall>k. ?P k \<longrightarrow> k \<le> length ps" by simp
    have bQ: "\<forall>k. ?Q k \<longrightarrow> k \<le> length (p # ps)" by simp
    have gP: "?P (Greatest ?P)" using GreatestI_nat [of ?P j "length ps"] j bP by blast
    have Qs: "?Q (Suc (Greatest ?P))" using gP by simp
    have gQ: "?Q (Greatest ?Q)" using GreatestI_nat [of ?Q "Suc (Greatest ?P)"] Qs bQ by blast
    have le1: "Suc (Greatest ?P) \<le> Greatest ?Q"
      using Greatest_le_nat [of ?Q "Suc (Greatest ?P)"] Qs bQ by blast
    then obtain m where m: "Greatest ?Q = Suc m" by (cases "Greatest ?Q") auto
    have "?P m" using gQ m by simp
    then have "m \<le> Greatest ?P" using Greatest_le_nat [of ?P m] bP by blast
    with le1 m have "Greatest ?Q = Suc (Greatest ?P)" by simp
    with True show ?thesis using Cons.IH [of "Suc n"] by simp
  next
    case False
    show ?thesis
    proof (cases "name p = passName")
      case True
      let ?Q = "\<lambda>k. k < length (p # ps) \<and> name ((p # ps) ! k) = passName"
      have "?Q k \<Longrightarrow> k = 0" for k
        using False by (cases k) auto
      moreover have "?Q 0" using True by simp
      ultimately have "Greatest ?Q = 0" by (intro Greatest_equality) auto
      with True False show ?thesis using Cons.IH [of "Suc n"] by simp
    next
      case False2: False
      with False show ?thesis using Cons.IH [of "Suc n"] by simp
    qed
  qed
qed

lemma scan_passes_last:
  assumes "i < length ps" and "name (ps ! i) = passName"
    and "\<forall>j. i < j \<and> j < length ps \<longrightarrow> name (ps ! j) \<noteq> passName"
  shows "scan_passes ps passName = Some i"
proof -
  let ?P = "\<lambda>k. k < length ps \<and> name (ps ! k) = passName"
  have ex: "\<exists>v \<in> set ps. name v = passName"
    using assms(1,2) nth_mem by blast
  have "Greatest ?P = i"
  proof (rule Greatest_equality)
    show "?P i" using assms(1,2) by simp
  next
    fix k assume k: "?P k"
    show "k \<le> i"
    proof (rule ccontr)
      assume "\<not> k \<le> i"
      then have "i < k" by simp
      with assms(3) k show False by blast
    qed
  qed
  with ex show ?thesis
    unfolding scan_passes_def by (simp add: scan_passes_fold)
qed

lemma scan_passes_absent:
  assumes "\<forall>v \<in> set ps. name v \<noteq> passName"
  shows "scan_passes ps passName = None"
  using assms unfolding scan_passes_def by (simp add: scan_passes_fold)

text \<open>
  Claim C9. When the anchor name occurs in the selected pass list, possibly more than
  once, both \<open>before\<close> and \<open>after\<close> resolve it to its last occurrence: the index \<open>i\<close>
  that carries the name and has no later pass of that name. Both insert the new stage
  at that index.
\<close>

theorem anchor_resolves_to_last_occurrence:
  assumes "kind = ''web'' \<or> kind = ''ws''"
    and "i < length (select_passes self kind)"
    and "name (select_passes self kind ! i) = passName"
    and "\<forall>j. i < j \<and> j < length (select_passes self kind)
           \<longrightarrow> name (select_passes self kind ! j) \<noteq> passName"
  shows "scan_passes (select_passes self kind) passName = Some i
       \<and> before self kind passName callback =
           Inr (store_passes self kind
                 (take i (select_passes self kind) @ callback # drop i (select_passes self kind)))
       \<and> after self kind passName callback =
           Inr (store_passes self kind
                 (take i (select_passes self kind) @ callback # drop i (select_passes self kind)))"
proof -
  have s: "scan_passes (select_passes self kind) passName = Some i"
    using assms(2,3,4) by (rule scan_passes_last)
  have k: "\<not> (kind \<noteq> ''ws'' \<and> kind \<noteq> ''web'')" using assms(1) by auto
  show ?thesis
    using s k by (simp add: before_def after_def splice0_def Let_def)
qed

text \<open>
  Claim C9 on a list with the anchor name \<open>''a''\<close> at positions 0 and 2: the new
  stage goes to position 2, in front of the last \<open>''a''\<close>, and not to position 0.
\<close>

theorem anchor_resolves_to_last_occurrence_witness:
  "before \<lparr>webPasses = [\<lparr>name = ''a'', fn = (0::nat)\<rparr>, \<lparr>name = ''b'', fn = 1\<rparr>,
                          \<lparr>name = ''a'', fn = 2\<rparr>],
            wsPasses = [], error_listeners = ([] :: unit listener list)\<rparr>
      ''web'' ''a'' \<lparr>name = ''s'', fn = 7\<rparr>
   = Inr \<lparr>webPasses = [\<lparr>name = ''a'', fn = 0\<rparr>, \<lparr>name = ''b'', fn = 1\<rparr>,
                         \<lparr>name = ''s'', fn = 7\<rparr>, \<lparr>name = ''a'', fn = 2\<rparr>],
           wsPasses = [], error_listeners = []\<rparr>
   \<and> after \<lparr>webPasses = [\<lparr>name = ''a'', fn = (0::nat)\<rparr>, \<lparr>name = ''b'', fn = 1\<rparr>,
                          \<lparr>name = ''a'', fn = 2\<rparr>],
            wsPasses = [], error_listeners = ([] :: unit listener list)\<rparr>
      ''web'' ''a'' \<lparr>name = ''s'', fn = 7\<rparr>
   = Inr \<lparr>webPasses = [\<lparr>name = ''a'', fn = 0\<rparr>, \<lparr>name = ''b'', fn = 1\<rparr>,
                         \<lparr>name = ''s'', fn = 7\<rparr>, \<lparr>name = ''a'', fn = 2\<rparr>],
           wsPasses = [], error_listeners = []\<rparr>"
  using anchor_resolves_to_last_occurrence
    [of "''web''" 2
        "\<lparr>webPasses = [\<lparr>name = ''a'', fn = (0::nat)\<rparr>, \<lparr>name = ''b'', fn = 1\<rparr>,
                       \<lparr>name = ''a'', fn = 2\<rparr>],
          wsPasses = [], error_listeners = ([] :: unit listener list)\<rparr>"
        "''a''" "\<lparr>name = ''s'', fn = 7\<rparr>"]
  by (simp add: select_passes_def store_passes_def)

text \<open>
  Claim C1. On the WebSocket pass list of a fresh server, \<open>after\<close> with the anchor
  \<open>''xHeaders''\<close> puts the new stage in front of \<open>xHeaders\<close>: the anchor follows the
  new stage instead of preceding it.
\<close>

theorem after_inserts_in_front_of_anchor:
  "after (new_ProxyServer web ws_pass_table :: (nat, 'e) ProxyServer)
         ''ws'' ''xHeaders'' \<lparr>name = ''stage'', fn = 9\<rparr>
   = Inr \<lparr>webPasses = web,
           wsPasses = [\<lparr>name = ''checkMethodAndHeader'', fn = 0\<rparr>,
                       \<lparr>name = ''stage'', fn = 9\<rparr>,
                       \<lparr>name = ''xHeaders'', fn = 1\<rparr>,
                       \<lparr>name = ''stream'', fn = 2\<rparr>],
           error_listeners = [OnError]\<rparr>"
  by (simp add: after_def new_ProxyServer_def ws_pass_table_def select_passes_def
      store_passes_def scan_passes_def splice0_def)

section \<open>Properties of urlJoin\<close>

lemma split_on_nonempty: "split_on sep s \<noteq> []"
  by (induction s) (auto split: list.splits)

lemma split_on_notin: "sep \<notin> set s \<Longrightarrow> split_on sep s = [s]"
  by (induction s) auto

lemma split_on_append:
  "sep \<notin> set p \<Longrightarrow> split_on sep (p @ sep # q) = p # split_on sep q"
  by (induction p) auto

lemma join_with_Cons: "ss \<noteq> [] \<Longrightarrow> join_with sep (s # ss) = s @ sep @ join_with sep ss"
  by (cases ss) auto

lemma join_split: "join_with [sep] (split_on sep s) = s"
proof (induction s)
  case Nil
  show ?case by simp
next
  case (Cons c cs)
  show ?case
  proof (cases "c = sep")
    case True
    then show ?thesis using Cons by (simp add: join_with_Cons split_on_nonempty)
  next
    case False
    obtain seg segs where e: "split_on sep cs = seg # segs"
      using split_on_nonempty [of sep cs] by (cases "split_on sep cs") auto
    show ?thesis using Cons False e by (cases segs) auto
  qed
qed

lemma urlJoin_no_query:
  assumes "arg \<noteq> []" and "CHR ''?'' \<notin> set (last arg)"
  shows "urlJoin arg = Inr (normalize_slashes (join_with ''/'' (filter (\<lambda>a. a \<noteq> []) arg)))"
  using assms by (simp add: urlJoin_def split_on_notin Let_def)

lemma urlJoin_query:
  assumes "CHR ''?'' \<notin> set p"
  shows "urlJoin (xs @ [p @ CHR ''?'' # q]) =
         Inr (normalize_slashes (join_with ''/'' (filter (\<lambda>a. a \<noteq> []) (xs @ [p]))) @ CHR ''?'' # q)"
proof -
  have "join_with ''?'' (r # split_on CHR ''?'' q) = r @ CHR ''?'' # q" for r
    using join_split [of "CHR ''?''" q] by (simp add: join_with_Cons split_on_nonempty)
  then show ?thesis
    using assms by (simp add: urlJoin_def split_on_append Let_def)
qed

lemma collapse_Nil: "collapse_slashes s = [] \<longleftrightarrow> s = []"
  by (cases s) auto

lemma collapse_hd: "s \<noteq> [] \<Longrightarrow> hd (collapse_slashes s) = hd s"
  by (cases s) auto

lemma collapse_no_adjacent: "\<not> adjacent_slashes_at (collapse_slashes s) i"
proof (induction s arbitrary: i rule: collapse_slashes.induct)
  case 1
  show ?case by (simp add: adjacent_slashes_at_def)
next
  case (2 c cs)
  show ?case
  proof (cases "c = CHR ''/''")
    case True
    let ?r = "dropWhile (\<lambda>d. d = CHR ''/'') cs"
    have ih: "\<not> adjacent_slashes_at (collapse_slashes ?r) j" for j
      using 2(1) True by simp
    have hd: "collapse_slashes ?r \<noteq> [] \<Longrightarrow> hd (collapse_slashes ?r) \<noteq> CHR ''/''"
      using hd_dropWhile [of "\<lambda>d. d = CHR ''/''" cs]
      by (simp add: collapse_Nil collapse_hd)
    show ?thesis
    proof (cases i)
      case 0
      then show ?thesis using True hd
        by (cases "collapse_slashes ?r") (auto simp: adjacent_slashes_at_def)
    next
      case (Suc j)
      then show ?thesis using True ih [of j]
        by (auto simp: adjacent_slashes_at_def)
    qed
  next
    case False
    have ih: "\<not> adjacent_slashes_at (collapse_slashes cs) j" for j
      using 2(2) False by simp
    show ?thesis
    proof (cases i)
      case 0
      then show ?thesis using False by (auto simp: adjacent_slashes_at_def)
    next
      case (Suc j)
      then show ?thesis using False ih [of j]
        by (auto simp: adjacent_slashes_at_def)
    qed
  qed
qed

lemma replace_first_cases:
  "replace_first pat rep s = s \<or>
   (\<exists>a b. s = a @ pat @ b \<and> replace_first pat rep s = a @ rep @ b)"
proof (induction s)
  case Nil
  show ?case by auto
next
  case (Cons c cs)
  show ?case
  proof (cases "prefix pat (c # cs)")
    case True
    then obtain b where b: "c # cs = pat @ b" by (auto simp: prefix_def)
    have "drop (length pat) (c # cs) = b" unfolding b by simp
    then have "replace_first pat rep (c # cs) = [] @ rep @ b" using True by simp
    moreover have "c # cs = [] @ pat @ b" using b by simp
    ultimately show ?thesis by blast
  next
    case False
    from Cons show ?thesis
    proof
      assume "replace_first pat rep cs = cs"
      then show ?thesis using False by simp
    next
      assume "\<exists>a b. cs = a @ pat @ b \<and> replace_first pat rep cs = a @ rep @ b"
      then obtain a b where "cs = a @ pat @ b" "replace_first pat rep cs = a @ rep @ b" by blast
      then have "c # cs = (c # a) @ pat @ b \<and> replace_first pat rep (c # cs) = (c # a) @ rep @ b"
        using False by simp
      then show ?thesis by blast
    qed
  qed
qed

lemma adjacent_insert:
  assumes "adjacent_slashes_at (x @ CHR ''/'' # CHR ''/'' # y) i"
  shows "i = length x
       \<or> (i < length x \<and> adjacent_slashes_at (x @ CHR ''/'' # y) i)
       \<or> (length x < i \<and> adjacent_slashes_at (x @ CHR ''/'' # y) (i - 1))"
proof -
  consider "i < length x" | "i = length x" | "length x < i" by linarith
  then show ?thesis
  proof cases
    case 1
    then show ?thesis using assms
      by (auto simp: adjacent_slashes_at_def nth_append nth_Cons split: nat.splits)
  next
    case 2
    then show ?thesis by simp
  next
    case 3
    then obtain k where k: "i = Suc (length x + k)"
      using less_iff_Suc_add by auto
    then show ?thesis using assms
      by (auto simp: adjacent_slashes_at_def nth_append nth_Cons split: nat.splits)
  qed
qed

lemma suffix_skip:
  assumes "suffix p (u @ c # z)" and "c \<notin> set p"
  shows "suffix p z"
proof -
  from assms(1) consider "suffix p (c # z)" | p' where "p = p' @ c # z"
    by (auto simp: suffix_append)
  then show ?thesis
  proof cases
    case 1
    then show ?thesis using assms(2) by (auto simp: suffix_Cons)
  next
    case 2
    then show ?thesis using assms(2) by auto
  qed
qed

lemma http_not_suffix_https: "\<not> suffix ''http:'' (c @ ''https:'')"
proof
  assume "suffix ''http:'' (c @ ''https:'')"
  then consider "suffix ''http:'' ''https:''" | p' where "''http:'' = p' @ ''https:''"
    by (auto simp only: suffix_append)
  then show False
  proof cases
    case 1
    then show False by (simp add: suffix_Cons)
  next
    case 2
    then have "length ''http:'' = length (p' @ ''https:'')" by (rule arg_cong)
    then show False by simp
  qed
qed

lemma normalize_slashes_adjacent:
  assumes "adjacent_slashes_at (normalize_slashes s) i"
  shows "suffix ''http:'' (take i (normalize_slashes s))
       \<or> suffix ''https:'' (take i (normalize_slashes s))"
proof -
  define s0 where "s0 = collapse_slashes s"
  define t where "t = replace_first ''http:/'' ''http://'' s0"
  define w where "w = replace_first ''https:/'' ''https://'' t"
  have w: "normalize_slashes s = w" by (simp add: normalize_slashes_def w_def t_def s0_def)
  have s0_clean: "\<not> adjacent_slashes_at s0 j" for j
    unfolding s0_def by (rule collapse_no_adjacent)
  have P1: "suffix ''http:'' (take j t)" if d: "adjacent_slashes_at t j" for j
  proof -
    from replace_first_cases [of "''http:/''" "''http://''" s0]
    consider "t = s0" | a b where "s0 = a @ ''http:/'' @ b" "t = a @ ''http://'' @ b"
      unfolding t_def by blast
    then show ?thesis
    proof cases
      case 1
      with d s0_clean show ?thesis by simp
    next
      case 2
      define x where "x = a @ ''http:''"
      have s0': "s0 = x @ CHR ''/'' # b" using 2(1) by (simp add: x_def)
      have t': "t = x @ CHR ''/'' # CHR ''/'' # b" using 2(2) by (simp add: x_def)
      from d have "adjacent_slashes_at (x @ CHR ''/'' # CHR ''/'' # b) j" unfolding t' .
      from adjacent_insert [OF this] s0_clean
      have "j = length x" unfolding s0' by blast
      then have "take j t = x" unfolding t' by simp
      then show ?thesis by (simp add: x_def suffix_def)
    qed
  qed
  from replace_first_cases [of "''https:/''" "''https://''" t]
  consider "w = t" | c d where "t = c @ ''https:/'' @ d" "w = c @ ''https://'' @ d"
    unfolding w_def by blast
  then have "suffix ''http:'' (take i w) \<or> suffix ''https:'' (take i w)"
  proof cases
    case 1
    with assms w P1 [of i] show ?thesis by simp
  next
    case 2
    define x where "x = c @ ''https:''"
    have t': "t = x @ CHR ''/'' # d" using 2(1) by (simp add: x_def)
    have w': "w = x @ CHR ''/'' # CHR ''/'' # d" using 2(2) by (simp add: x_def)
    from assms have "adjacent_slashes_at (x @ CHR ''/'' # CHR ''/'' # d) i"
      unfolding w w' .
    from adjacent_insert [OF this]
    consider "i = length x"
      | "i < length x" "adjacent_slashes_at (x @ CHR ''/'' # d) i"
      | "length x < i" "adjacent_slashes_at (x @ CHR ''/'' # d) (i - 1)"
      by blast
    then show ?thesis
    proof cases
      case 1
      then have "take i w = x" unfolding w' by simp
      then show ?thesis by (simp add: x_def suffix_def)
    next
      case 2
      then have "suffix ''http:'' (take i t)" using P1 [of i] unfolding t' by blast
      moreover have "take i t = take i w" using 2(1) unfolding t' w' by simp
      ultimately show ?thesis by simp
    next
      case 3
      then have p: "suffix ''http:'' (take (i - 1) t)" using P1 [of "i - 1"] unfolding t' by blast
      from 3(1) obtain k where k: "i = Suc (length x + k)"
        using less_iff_Suc_add by auto
      show ?thesis
      proof (cases k)
        case 0
        then have "take (i - 1) t = x" using k unfolding t' by simp
        with p http_not_suffix_https [of c] show ?thesis by (simp add: x_def)
      next
        case (Suc m)
        then have tk: "take (i - 1) t = x @ CHR ''/'' # take m d" using k unfolding t' by simp
        have wk: "take i w = (x @ ''/'') @ CHR ''/'' # take m d" using k Suc unfolding w' by simp
        from p have "suffix ''http:'' (x @ CHR ''/'' # take m d)" unfolding tk .
        then have "suffix ''http:'' (take m d)" by (rule suffix_skip) simp
        then have "suffix ''http:'' (take i w)"
          unfolding wk by (meson suffix_appendI suffix_ConsI)
        then show ?thesis by simp
      qed
    qed
  qed
  then show ?thesis unfolding w .
qed

lemma collapse_drop_head:
  assumes "r = [] \<or> hd r \<noteq> CHR ''/''"
  shows "dropWhile (\<lambda>d. d = CHR ''/'') (collapse_slashes r) = collapse_slashes r"
  using assms by (cases r) auto

lemma collapse_idem: "collapse_slashes (collapse_slashes s) = collapse_slashes s"
proof (induction s rule: collapse_slashes.induct)
  case 1
  show ?case by simp
next
  case (2 c cs)
  show ?case
  proof (cases "c = CHR ''/''")
    case True
    let ?r = "dropWhile (\<lambda>d. d = CHR ''/'') cs"
    have "?r = [] \<or> hd ?r \<noteq> CHR ''/''"
      using hd_dropWhile [of "\<lambda>d. d = CHR ''/''" cs] by blast
    then have "dropWhile (\<lambda>d. d = CHR ''/'') (collapse_slashes ?r) = collapse_slashes ?r"
      by (rule collapse_drop_head)
    then show ?thesis using True 2(1) by simp
  next
    case False
    then show ?thesis using 2(2) by simp
  qed
qed

lemma collapse_insert:
  "collapse_slashes (x @ CHR ''/'' # CHR ''/'' # y) = collapse_slashes (x @ CHR ''/'' # y)"
proof (induction "length x" arbitrary: x rule: less_induct)
  case less
  show ?case
  proof (cases x)
    case Nil
    then show ?thesis by simp
  next
    case (Cons c x')
    show ?thesis
    proof (cases "c = CHR ''/''")
      case False
      then show ?thesis using Cons less [of x'] by simp
    next
      case True
      show ?thesis
      proof (cases "\<forall>e \<in> set x'. e = CHR ''/''")
        case all: True
        then show ?thesis using Cons True by (simp add: dropWhile_append)
      next
        case some: False
        let ?r = "dropWhile (\<lambda>d. d = CHR ''/'') x'"
        have "length ?r < length x"
          using Cons length_dropWhile_le [of "\<lambda>d. d = CHR ''/''" x'] by simp
        then have "collapse_slashes (?r @ CHR ''/'' # CHR ''/'' # y)
                 = collapse_slashes (?r @ CHR ''/'' # y)"
          by (rule less)
        moreover have "dropWhile (\<lambda>d. d = CHR ''/'') (x' @ z) = ?r @ z" for z
          using some by (auto simp: dropWhile_append)
        ultimately show ?thesis using Cons True by simp
      qed
    qed
  qed
qed

lemma collapse_replace_first_http:
  "collapse_slashes (replace_first ''http:/'' ''http://'' s) = collapse_slashes s"
proof -
  from replace_first_cases [of "''http:/''" "''http://''" s]
  consider "replace_first ''http:/'' ''http://'' s = s"
    | a b where "s = a @ ''http:/'' @ b" "replace_first ''http:/'' ''http://'' s = a @ ''http://'' @ b"
    by blast
  then show ?thesis
  proof cases
    case 1
    then show ?thesis by simp
  next
    case 2
    have "collapse_slashes ((a @ ''http:'') @ CHR ''/'' # CHR ''/'' # b)
        = collapse_slashes ((a @ ''http:'') @ CHR ''/'' # b)"
      by (rule collapse_insert)
    then show ?thesis using 2 by simp
  qed
qed

lemma collapse_replace_first_https:
  "collapse_slashes (replace_first ''https:/'' ''https://'' s) = collapse_slashes s"
proof -
  from replace_first_cases [of "''https:/''" "''https://''" s]
  consider "replace_first ''https:/'' ''https://'' s = s"
    | a b where "s = a @ ''https:/'' @ b" "replace_first ''https:/'' ''https://'' s = a @ ''https://'' @ b"
    by blast
  then show ?thesis
  proof cases
    case 1
    then show ?thesis by simp
  next
    case 2
    have "collapse_slashes ((a @ ''https:'') @ CHR ''/'' # CHR ''/'' # b)
        = collapse_slashes ((a @ ''https:'') @ CHR ''/'' # b)"
      by (rule collapse_insert)
    then show ?thesis using 2 by simp
  qed
qed

lemma normalize_slashes_idem:
  "normalize_slashes (normalize_slashes s) = normalize_slashes s"
  by (simp add: normalize_slashes_def collapse_replace_first_http
      collapse_replace_first_https collapse_idem)

text \<open>
  Claim C2, as amended. Write \<open>normalize_slashes\<close> for what the code does to a
  joined path: every run of slashes collapses to one slash, then the first \<open>http:/\<close>
  and the first \<open>https:/\<close> get their second slash back.
  \<^item> \<open>urlJoin(a, "")\<close> is \<open>normalize_slashes a\<close> (not \<open>a\<close> itself), and it is \<open>a\<close>
    again when \<open>a\<close> is already normalized, as every result of the function is.
  \<^item> \<open>urlJoin("", b)\<close> is the part of \<open>b\<close> in front of its first question mark,
    normalized (no slash is added in front), followed by the rest of \<open>b\<close> unchanged.
  \<^item> In a normalized path two adjacent slashes occur only directly behind \<open>http:\<close> or
    \<open>https:\<close>.
  \<^item> The query string of the last argument (everything behind its first question
    mark) takes no part in the join and is appended to the result verbatim, further
    question marks included.
\<close>

theorem urlJoin_laws:
  "urlJoin [a, ''''] = Inr (normalize_slashes a)
 \<and> urlJoin [normalize_slashes a, ''''] = Inr (normalize_slashes a)
 \<and> (CHR ''?'' \<notin> set p \<longrightarrow>
      urlJoin ['''', p] = Inr (normalize_slashes p)
    \<and> urlJoin ['''', p @ CHR ''?'' # q] = Inr (normalize_slashes p @ CHR ''?'' # q))
 \<and> (\<forall>i. adjacent_slashes_at (normalize_slashes s) i \<longrightarrow>
          suffix ''http:'' (take i (normalize_slashes s))
        \<or> suffix ''https:'' (take i (normalize_slashes s)))
 \<and> (CHR ''?'' \<notin> set p \<longrightarrow>
      urlJoin (xs @ [p]) =
        Inr (normalize_slashes (join_with ''/'' (filter (\<lambda>a. a \<noteq> []) (xs @ [p]))))
    \<and> urlJoin (xs @ [p @ CHR ''?'' # q]) =
        Inr (normalize_slashes (join_with ''/'' (filter (\<lambda>a. a \<noteq> []) (xs @ [p])))
             @ CHR ''?'' # q))"
proof -
  have one: "urlJoin [b, ''''] = Inr (normalize_slashes b)" for b
    using urlJoin_no_query [of "[b, '''']"] by (cases "b = []") simp_all
  have two: "urlJoin (ys @ [p]) =
        Inr (normalize_slashes (join_with ''/'' (filter (\<lambda>a. a \<noteq> []) (ys @ [p]))))"
    if "CHR ''?'' \<notin> set p" for ys
    using that urlJoin_no_query [of "ys @ [p]"] by simp
  have three: "urlJoin (ys @ [p @ CHR ''?'' # q]) =
        Inr (normalize_slashes (join_with ''/'' (filter (\<lambda>a. a \<noteq> []) (ys @ [p])))
             @ CHR ''?'' # q)"
    if "CHR ''?'' \<notin> set p" for ys
    using that by (rule urlJoin_query)
  have four: "urlJoin ['''', p] = Inr (normalize_slashes p)" if "CHR ''?'' \<notin> set p"
    using two [OF that, of "['''']"] by (cases "p = []") simp_all
  have five: "urlJoin ['''', p @ CHR ''?'' # q] = Inr (normalize_slashes p @ CHR ''?'' # q)"
    if "CHR ''?'' \<notin> set p"
    using three [OF that, of "['''']"] by (cases "p = []") simp_all
  show ?thesis
    using one [of a] one [of "normalize_slashes a"] two three four five
      normalize_slashes_adjacent [of s]
    by (simp add: normalize_slashes_idem)
qed

text \<open>The laws of claim C2 at concrete arguments.\<close>

theorem urlJoin_laws_witness:
  "urlJoin [''/api//v1/'', ''''] = Inr ''/api/v1/''
 \<and> urlJoin ['''', ''//v1//users''] = Inr ''/v1/users''
 \<and> urlJoin ['''', ''//v1//users?a=//b?c''] = Inr ''/v1/users?a=//b?c''
 \<and> adjacent_slashes_at (normalize_slashes ''http:/u///x'') 5
 \<and> suffix ''http:'' (take 5 (normalize_slashes ''http:/u///x''))
 \<and> urlJoin [''/api/'', ''/v1/users?a=1''] = Inr ''/api/v1/users?a=1''"
  using urlJoin_laws [of "''/api//v1/''" "''//v1//users''" "''a=//b?c''" "''http:/u///x''" "[]"]
    urlJoin_laws [of "''''" "''/v1/users''" "''a=1''" "''''" "[''/api/'']"]
  by (simp add: normalize_slashes_def adjacent_slashes_at_def suffix_def)

text \<open>
  Claim C2 as stated fails: \<open>urlJoin("/a//b", "")\<close> is \<open>/a/b\<close>, not its first
  argument.
\<close>

theorem urlJoin_identity_counterexample:
  "urlJoin [''/a//b'', ''''] = Inr ''/a/b'' \<and> urlJoin [''/a//b'', ''''] \<noteq> Inr ''/a//b''"
  by (simp add: urlJoin_def normalize_slashes_def)

section \<open>Properties of setupOutgoing\<close>
















section \<open>Properties of the WebSocket handshake\<close>

lemma join_with_lines: "join_with sep (l # ls) = l @ concat (map (\<lambda>x. sep @ x) ls)"
  by (induction ls arbitrary: l) auto

lemma concat_sep_shift:
  "concat (map (\<lambda>x. sep @ x) ls) @ sep = sep @ concat (map (\<lambda>x. x @ sep) ls)"
  by (induction ls) auto

lemma fold_header_keys:
  assumes "\<forall>(k, v) \<in> set hs. map_of headers k = Some v"
  shows "fold (\<lambda>key header.
                case map_of headers key of
                  Some (Multiple value) \<Rightarrow> header @ map (\<lambda>v. key @ '': '' @ v) value
                | Some (Single value) \<Rightarrow> header @ [key @ '': '' @ value]
                | None \<Rightarrow> header @ [key @ '': undefined''])
             (map fst hs) acc
         = acc @ concat (map header_lines hs)"
  using assms
proof (induction hs arbitrary: acc)
  case Nil
  show ?case by simp
next
  case (Cons e hs)
  obtain k v where e: "e = (k, v)" by (cases e)
  from Cons.prems e have look: "map_of headers k = Some v" by simp
  from Cons.prems have rest: "\<forall>(k, v) \<in> set hs. map_of headers k = Some v" by simp
  show ?case
    using Cons.IH [OF rest] look e by (cases v) simp_all
qed

text \<open>
  Claim C5. For the headers object of an upstream upgrade response (its keys are
  distinct, as the keys of an object are), the bytes that the \<open>upgrade\<close> handler writes
  to the client socket are the line \<open>HTTP/1.1 101 Switching Protocols\<close> and a line
  break, then every header as a line \<open>Key: Value\<close> with its line break, in the order of
  the object and with one line per element of an array value, then one more line
  break. So the bytes begin with the status line and its line break and end with two
  line breaks.
\<close>

theorem upgrade_handshake_bytes:
  assumes "distinct (map fst headers)"
  shows "upgrade_write headers =
           ''HTTP/1.1 101 Switching Protocols'' @ CRLF
           @ concat (map (\<lambda>l. l @ CRLF) (concat (map header_lines headers)))
           @ CRLF
       \<and> prefix (''HTTP/1.1 101 Switching Protocols'' @ CRLF) (upgrade_write headers)
       \<and> suffix (CRLF @ CRLF) (upgrade_write headers)"
proof -
  have "\<forall>(k, v) \<in> set headers. map_of headers k = Some v"
    using assms by auto
  then have "fold (\<lambda>key header.
                case map_of headers key of
                  Some (Multiple value) \<Rightarrow> header @ map (\<lambda>v. key @ '': '' @ v) value
                | Some (Single value) \<Rightarrow> header @ [key @ '': '' @ value]
                | None \<Rightarrow> header @ [key @ '': undefined''])
             (map fst headers) [''HTTP/1.1 101 Switching Protocols'']
         = [''HTTP/1.1 101 Switching Protocols''] @ concat (map header_lines headers)"
    by (rule fold_header_keys)
  then have "upgrade_write headers =
      join_with CRLF (''HTTP/1.1 101 Switching Protocols'' # concat (map header_lines headers))
      @ CRLF @ CRLF"
    unfolding upgrade_write_def createHttpHeader_def by simp
  then have "upgrade_write headers =
      ''HTTP/1.1 101 Switching Protocols''
      @ (concat (map (\<lambda>x. CRLF @ x) (concat (map header_lines headers))) @ CRLF) @ CRLF"
    by (simp add: join_with_lines)
  also have "\<dots> =
      ''HTTP/1.1 101 Switching Protocols''
      @ (CRLF @ concat (map (\<lambda>x. x @ CRLF) (concat (map header_lines headers)))) @ CRLF"
    by (simp only: concat_sep_shift)
  finally have eq: "upgrade_write headers =
           ''HTTP/1.1 101 Switching Protocols'' @ CRLF
           @ concat (map (\<lambda>l. l @ CRLF) (concat (map header_lines headers)))
           @ CRLF"
    by simp
  have "suffix (CRLF @ CRLF) (upgrade_write headers)"
    unfolding upgrade_write_def createHttpHeader_def by (simp add: suffix_def)
  moreover have "prefix (''HTTP/1.1 101 Switching Protocols'' @ CRLF) (upgrade_write headers)"
    unfolding eq by (rule prefixI) simp
  ultimately show ?thesis using eq by blast
qed

text \<open>Claim C5 for three headers, the second with an array of two values.\<close>

theorem upgrade_handshake_bytes_witness:
  "upgrade_write [(''upgrade'', Single ''websocket''), (''set-cookie'', Multiple [''a=1'', ''b=2'']),
                  (''connection'', Single ''Upgrade'')]
   = ''HTTP/1.1 101 Switching Protocols'' @ CRLF
     @ ''upgrade: websocket'' @ CRLF
     @ ''set-cookie: a=1'' @ CRLF
     @ ''set-cookie: b=2'' @ CRLF
     @ ''connection: Upgrade'' @ CRLF
     @ CRLF"
  using upgrade_handshake_bytes
    [of "[(''upgrade'', Single ''websocket''), (''set-cookie'', Multiple [''a=1'', ''b=2'']),
          (''connection'', Single ''Upgrade'')]"]
  by simp

section \<open>Properties of Server.all\<close>

text \<open>
  Claim C6, as amended. \<open>all\<close> calls the \<open>ws\<close> entry point exactly when the method
  of the request is \<open>GET\<close> and its \<open>Upgrade\<close> header is present and equals
  \<open>websocket\<close> without regard to case; in every other case it calls \<open>web\<close>.
\<close>

theorem all_routes_by_method_and_upgrade:
  "(all_dispatch req = Ws \<longleftrightarrow>
      req_method req = ''GET'' \<and>
      (\<exists>u. req_headers req ''upgrade'' = Some u \<and> toLowerCase u = ''websocket''))
 \<and> (all_dispatch req = Web \<longleftrightarrow>
      \<not> (req_method req = ''GET'' \<and>
         (\<exists>u. req_headers req ''upgrade'' = Some u \<and> toLowerCase u = ''websocket'')))"
  by (auto simp: all_dispatch_def isWebsocket_def toLowerCase_def split: option.splits)

text \<open>
  Claim C6 at a \<open>GET\<close> request with the header \<open>Upgrade: WebSocket\<close>, which goes to
  the WebSocket pipeline, and at a \<open>GET\<close> request without the header, which does not.
\<close>

theorem all_routes_by_method_and_upgrade_witness:
  "all_dispatch (blank_request\<lparr>req_headers := [''upgrade'' \<mapsto> ''WebSocket'']\<rparr>) = Ws
 \<and> all_dispatch blank_request = Web"
proof -
  have low: "toLowerCase ''WebSocket'' = ''websocket''" by code_simp
  show ?thesis
    using all_routes_by_method_and_upgrade
        [of "blank_request\<lparr>req_headers := [''upgrade'' \<mapsto> ''WebSocket'']\<rparr>"]
      all_routes_by_method_and_upgrade [of blank_request] low
    by (simp add: blank_request_def)
qed

text \<open>
  Claim C6 as stated fails: a \<open>POST\<close> request whose \<open>Upgrade\<close> header is
  \<open>WebSocket\<close> goes to the web pipeline.
\<close>

theorem all_routes_post_upgrade_counterexample:
  "toLowerCase ''WebSocket'' = ''websocket''
 \<and> all_dispatch (blank_request\<lparr>req_method := ''POST'',
                                req_headers := [''upgrade'' \<mapsto> ''WebSocket'']\<rparr>) = Web"
proof -
  have "toLowerCase ''WebSocket'' = ''websocket''" by code_simp
  then show ?thesis
    by (simp add: all_dispatch_def isWebsocket_def blank_request_def)
qed

section \<open>Properties of the error event\<close>







section \<open>Properties of getPort and xHeaders\<close>

lemma colon_digit_at_Cons:
  "colon_digit_at (c # cs) (Suc j) \<longleftrightarrow> colon_digit_at cs j"
  "colon_digit_at (c # cs) 0 \<longleftrightarrow> c = CHR '':'' \<and> takeWhile is_digit cs \<noteq> []"
  by (auto simp: colon_digit_at_def takeWhile_eq_Nil_iff hd_conv_nth)

lemma match_port_None: "match_port h = None \<longleftrightarrow> (\<forall>i. \<not> colon_digit_at h i)"
proof (induction h)
  case Nil
  show ?case by (simp add: colon_digit_at_def)
next
  case (Cons c cs)
  show ?case
  proof (cases "colon_digit_at (c # cs) 0")
    case True
    then have "match_port (c # cs) \<noteq> None" by (simp add: colon_digit_at_Cons)
    with True show ?thesis by blast
  next
    case False
    then have "match_port (c # cs) = match_port cs" by (auto simp: colon_digit_at_Cons)
    moreover have "(\<forall>i. \<not> colon_digit_at (c # cs) i) \<longleftrightarrow> (\<forall>j. \<not> colon_digit_at cs j)"
    proof
      assume a: "\<forall>i. \<not> colon_digit_at (c # cs) i"
      show "\<forall>j. \<not> colon_digit_at cs j"
      proof
        fix j from a have "\<not> colon_digit_at (c # cs) (Suc j)" by blast
        then show "\<not> colon_digit_at cs j" by (simp add: colon_digit_at_Cons)
      qed
    next
      assume a: "\<forall>j. \<not> colon_digit_at cs j"
      show "\<forall>i. \<not> colon_digit_at (c # cs) i"
      proof
        fix i show "\<not> colon_digit_at (c # cs) i"
          using a False by (cases i) (simp_all add: colon_digit_at_Cons)
      qed
    qed
    ultimately show ?thesis using Cons by simp
  qed
qed

lemma match_port_first:
  assumes "colon_digit_at h i" and "\<forall>j<i. \<not> colon_digit_at h j"
  shows "match_port h = Some (takeWhile is_digit (drop (Suc i) h))"
  using assms
proof (induction h arbitrary: i)
  case Nil
  then show ?case by (simp add: colon_digit_at_def)
next
  case (Cons c cs)
  show ?case
  proof (cases i)
    case 0
    with Cons.prems(1) show ?thesis by (simp add: colon_digit_at_Cons)
  next
    case (Suc k)
    with Cons.prems(2) have no0: "\<not> colon_digit_at (c # cs) 0" by blast
    have k: "colon_digit_at cs k" using Cons.prems(1) Suc by (simp add: colon_digit_at_Cons)
    have "\<forall>j<k. \<not> colon_digit_at cs j"
    proof (intro allI impI)
      fix j assume "j < k"
      then have "Suc j < i" using Suc by simp
      with Cons.prems(2) have "\<not> colon_digit_at (c # cs) (Suc j)" by blast
      then show "\<not> colon_digit_at cs j" by (simp add: colon_digit_at_Cons)
    qed
    from Cons.IH [OF k this] no0 Suc show ?thesis
      by (auto simp: colon_digit_at_Cons)
  qed
qed

lemma xHeaders_port:
  assumes "xfwd options"
  shows "req_headers (xHeaders req options) ''x-forwarded-port'' =
           Some (case req_headers req ''x-forwarded-port'' of
                   None \<Rightarrow> getPort req
                 | Some old \<Rightarrow> if old = [] then getPort req else old @ '','' @ getPort req)"
  using assms by (simp add: xHeaders_def append_header_def split: option.split)

text \<open>
  Claim C10, as amended. For a request with a Host header, \<open>getPort\<close> returns the
  digits behind the first colon of the header that is directly followed by a digit (so
  \<open>1\<close> for the host \<open>[::1]:8080\<close>). When the header is absent or has no such colon, it
  returns \<open>443\<close> on an encrypted connection and \<open>80\<close> otherwise. When the option
  \<open>xfwd\<close> is set, the \<open>xHeaders\<close> pass appends this value to \<open>x-forwarded-port\<close> (behind
  a comma, if the header had a value); without the option the pass leaves the request
  as it is.
\<close>

theorem getPort_first_colon_digits:
  "(req_headers req ''host'' = Some h \<and> colon_digit_at h i \<and> (\<forall>j<i. \<not> colon_digit_at h j)
      \<longrightarrow> getPort req = takeWhile is_digit (drop (Suc i) h))
 \<and> (req_headers req ''host'' = None
      \<or> (\<exists>h. req_headers req ''host'' = Some h \<and> (\<forall>i. \<not> colon_digit_at h i))
      \<longrightarrow> getPort req = (if hasEncryptedConnection req then ''443'' else ''80''))
 \<and> getPort (blank_request\<lparr>req_headers := [''host'' \<mapsto> ''[::1]:8080'']\<rparr>) = ''1''
 \<and> (xfwd options \<longrightarrow>
      req_headers (xHeaders req options) ''x-forwarded-port'' =
        Some (case req_headers req ''x-forwarded-port'' of
                None \<Rightarrow> getPort req
              | Some old \<Rightarrow> if old = [] then getPort req else old @ '','' @ getPort req))
 \<and> (\<not> xfwd options \<longrightarrow> xHeaders req options = req)"
proof -
  have a: "getPort req = takeWhile is_digit (drop (Suc i) h)"
    if "req_headers req ''host'' = Some h" "colon_digit_at h i" "\<forall>j<i. \<not> colon_digit_at h j"
  proof -
    from that(2) have "h \<noteq> []" by (auto simp: colon_digit_at_def)
    then show ?thesis
      using that(1) match_port_first [OF that(2,3)] by (simp add: getPort_def)
  qed
  have b: "getPort req = (if hasEncryptedConnection req then ''443'' else ''80'')"
    if "req_headers req ''host'' = None
        \<or> (\<exists>h. req_headers req ''host'' = Some h \<and> (\<forall>i. \<not> colon_digit_at h i))"
  proof -
    from that consider "req_headers req ''host'' = None"
      | h where "req_headers req ''host'' = Some h" "\<forall>i. \<not> colon_digit_at h i"
      by auto
    then show ?thesis
    proof cases
      case 1
      then show ?thesis by (simp add: getPort_def)
    next
      case 2
      from 2(2) have "match_port h = None" by (simp add: match_port_None)
      with 2(1) show ?thesis by (simp add: getPort_def)
    qed
  qed
  have c: "getPort (blank_request\<lparr>req_headers := [''host'' \<mapsto> ''[::1]:8080'']\<rparr>) = ''1''"
    by (simp add: getPort_def blank_request_def is_digit_def)
  have d: "xHeaders req options = req" if "\<not> xfwd options"
    using that by (simp add: xHeaders_def)
  from a b c d xHeaders_port [of options req] show ?thesis by blast
qed

text \<open>
  Claim C10 for the hosts \<open>example.com:8080\<close> and \<open>example.com\<close>, for a request
  without Host header, and for a request that already carries \<open>x-forwarded-port\<close>.
\<close>

theorem getPort_first_colon_digits_witness:
  "getPort (blank_request\<lparr>req_headers := [''host'' \<mapsto> ''example.com:8080'']\<rparr>) = ''8080''
 \<and> getPort (blank_request\<lparr>req_headers := [''host'' \<mapsto> ''example.com''],
                          req_connection := Some \<lparr>encrypted = True, pair = False\<rparr>\<rparr>) = ''443''
 \<and> getPort blank_request = ''80''
 \<and> req_headers (xHeaders (blank_request\<lparr>req_headers := [''host'' \<mapsto> ''example.com:8080'',
                                                             ''x-forwarded-port'' \<mapsto> ''443'']\<rparr>)
                          (blank_options\<lparr>xfwd := True\<rparr>)) ''x-forwarded-port''
     = Some ''443,8080''"
proof -
  have cd: "colon_digit_at ''example.com:8080'' 11"
    and first: "\<forall>j<11. \<not> colon_digit_at ''example.com:8080'' j"
    and none: "\<forall>i. \<not> colon_digit_at ''example.com'' i"
    by (simp_all add: colon_digit_at_def is_digit_def nth_Cons' less_Suc_eq all_conj_distrib)
  have t: "takeWhile is_digit (drop (Suc 11) ''example.com:8080'') = ''8080''"
    by (simp add: is_digit_def)
  show ?thesis
    using getPort_first_colon_digits
        [of "blank_request\<lparr>req_headers := [''host'' \<mapsto> ''example.com:8080'']\<rparr>"
            "''example.com:8080''" 11 blank_options]
      getPort_first_colon_digits
        [of "blank_request\<lparr>req_headers := [''host'' \<mapsto> ''example.com''],
                          req_connection := Some \<lparr>encrypted = True, pair = False\<rparr>\<rparr>"
            "''example.com''" 0 blank_options]
      getPort_first_colon_digits [of blank_request "''''" 0 blank_options]
      getPort_first_colon_digits
        [of "blank_request\<lparr>req_headers := [''host'' \<mapsto> ''example.com:8080'',
                                           ''x-forwarded-port'' \<mapsto> ''443'']\<rparr>"
            "''example.com:8080''" 11 "blank_options\<lparr>xfwd := True\<rparr>"]
      cd first none t
    by (simp add: blank_request_def blank_options_def hasEncryptedConnection_def)
qed

text \<open>
  Claim C10 as stated fails: without the option \<open>xfwd\<close> the \<open>xHeaders\<close> pass appends
  nothing, and \<open>x-forwarded-port\<close> stays absent.
\<close>

theorem xHeaders_without_xfwd_counterexample:
  "getPort (blank_request\<lparr>req_headers := [''host'' \<mapsto> ''example.com:8080'']\<rparr>) = ''8080''
 \<and> req_headers (xHeaders (blank_request\<lparr>req_headers := [''host'' \<mapsto> ''example.com:8080'']\<rparr>)
                          blank_options) ''x-forwarded-port'' = None"
  by (simp add: getPort_def xHeaders_def blank_request_def blank_options_def is_digit_def)

section \<open>Properties of rewriteCookieProperty\<close>

lemma match_property_sound:
  assumes "match_property p s = Some (pre, v)"
  shows "\<exists>n. pre = n @ ''='' \<and> toLowerCase n = toLowerCase p
           \<and> s = pre @ v @ drop (length pre + length v) s
           \<and> v \<noteq> [] \<and> CHR '';'' \<notin> set v
           \<and> (drop (length pre + length v) s = []
               \<or> hd (drop (length pre + length v) s) = CHR '';'')"
proof -
  let ?n = "length p"
  let ?P = "\<lambda>d. d \<noteq> CHR '';''"
  from assms have len: "?n \<le> length s" and low: "toLowerCase (take ?n s) = toLowerCase p"
    by (auto simp: match_property_def Let_def split: if_splits)
  from assms len low obtain rest where rest: "drop ?n s = CHR ''='' # rest"
    and v: "v = takeWhile ?P rest" and vne: "takeWhile ?P rest \<noteq> []"
    and pre: "pre = take ?n s @ ''=''"
    by (auto simp: match_property_def Let_def split: if_splits list.splits)
  have s: "s = take ?n s @ CHR ''='' # rest"
    using rest append_take_drop_id [of ?n s] by simp
  have lp: "length pre = Suc ?n" using pre len by simp
  have "drop (length pre + length v) s = drop (length v) (drop (Suc ?n) s)"
    using lp by (simp add: add.commute)
  also have "drop (Suc ?n) s = rest"
    using rest by (metis drop_Suc drop_drop list.sel(3) plus_1_eq_Suc tl_drop)
  also have "drop (length v) rest = dropWhile ?P rest"
    using v by (simp add: dropWhile_eq_drop)
  finally have behind: "drop (length pre + length v) s = dropWhile ?P rest" .
  have "s = pre @ v @ dropWhile ?P rest"
    using s pre v by (metis append.assoc append_Cons append_Nil takeWhile_dropWhile_id)
  moreover have "CHR '';'' \<notin> set v"
    using v by (auto dest: set_takeWhileD)
  moreover have "dropWhile ?P rest = [] \<or> hd (dropWhile ?P rest) = CHR '';''"
    using hd_dropWhile [of ?P rest] by auto
  ultimately show ?thesis
    using pre low v vne behind by auto
qed

lemma match_spaces_sound:
  assumes "match_spaces p s = Some (pre, v)"
  shows "\<exists>ws n. pre = ws @ n @ ''='' \<and> list_all is_space ws \<and> toLowerCase n = toLowerCase p
           \<and> s = pre @ v @ drop (length pre + length v) s
           \<and> v \<noteq> [] \<and> CHR '';'' \<notin> set v
           \<and> (drop (length pre + length v) s = []
               \<or> hd (drop (length pre + length v) s) = CHR '';'')"
  using assms
proof (induction s arbitrary: pre)
  case Nil
  then have "match_property p [] = Some (pre, v)" by simp
  from match_property_sound [OF this] obtain n where
    "pre = n @ ''=''" "toLowerCase n = toLowerCase p"
    "[] = pre @ v @ drop (length pre + length v) []" "v \<noteq> []"
    by blast
  then show ?case by simp
next
  case (Cons c cs)
  have direct: ?case if "match_property p (c # cs) = Some (pre, v)"
  proof -
    from match_property_sound [OF that] obtain n where
      n: "pre = [] @ n @ ''=''" "toLowerCase n = toLowerCase p"
      "c # cs = pre @ v @ drop (length pre + length v) (c # cs)" "v \<noteq> []"
      "CHR '';'' \<notin> set v"
      "drop (length pre + length v) (c # cs) = []
       \<or> hd (drop (length pre + length v) (c # cs)) = CHR '';''"
      by auto
    have "list_all is_space []" by simp
    with n show ?thesis by blast
  qed
  show ?case
  proof (cases "is_space c")
    case False
    with Cons.prems have "match_property p (c # cs) = Some (pre, v)" by simp
    then show ?thesis by (rule direct)
  next
    case True
    show ?thesis
    proof (cases "match_spaces p cs")
      case None
      with True Cons.prems have "match_property p (c # cs) = Some (pre, v)" by simp
      then show ?thesis by (rule direct)
    next
      case (Some r)
      obtain q w where r: "r = (q, w)" by (cases r)
      with Some True Cons.prems have eq: "pre = c # q" "v = w" by simp_all
      from Some r eq have "match_spaces p cs = Some (q, v)" by simp
      from Cons.IH [OF this] obtain ws n where
        q: "q = ws @ n @ ''=''" "list_all is_space ws" "toLowerCase n = toLowerCase p"
        "cs = q @ v @ drop (length q + length v) cs" "v \<noteq> []" "CHR '';'' \<notin> set v"
        "drop (length q + length v) cs = [] \<or> hd (drop (length q + length v) cs) = CHR '';''"
        by blast
      have "pre = (c # ws) @ n @ ''=''" using eq q(1) by simp
      moreover have "list_all is_space (c # ws)" using True q(2) by simp
      moreover have "drop (length pre + length v) (c # cs) = drop (length q + length v) cs"
        using eq by simp
      moreover have "c # cs = pre @ v @ drop (length q + length v) cs"
        using q(4) eq by simp
      ultimately show ?thesis using q(3,5,6,7) by metis
    qed
  qed
qed

lemma find_property_sound:
  assumes "find_property p h = Some (front, prefix', v, behind)"
  shows "h = front @ prefix' @ v @ behind \<and> is_attribute_match p prefix' v behind"
  using assms
proof (induction h arbitrary: front)
  case Nil
  then show ?case by simp
next
  case (Cons c cs)
  show ?case
  proof (cases "if c = CHR '';'' then match_spaces p cs else None")
    case (Some r)
    obtain q w where r: "r = (q, w)" by (cases r)
    from Some r have c: "c = CHR '';''" and m: "match_spaces p cs = Some (q, w)"
      by (auto split: if_splits)
    from Cons.prems Some r have eq: "front = []" "prefix' = c # q" "v = w"
      "behind = drop (length q + length w) cs"
      by auto
    from match_spaces_sound [OF m] obtain ws n where
      q: "q = ws @ n @ ''=''" "list_all is_space ws" "toLowerCase n = toLowerCase p"
      "cs = q @ w @ drop (length q + length w) cs" "w \<noteq> []" "CHR '';'' \<notin> set w"
      "drop (length q + length w) cs = [] \<or> hd (drop (length q + length w) cs) = CHR '';''"
      by blast
    have "c # cs = front @ prefix' @ v @ behind" using eq q(4) by simp
    moreover have "is_attribute_match p prefix' v behind"
      unfolding is_attribute_match_def using eq c q by auto
    ultimately show ?thesis by simp
  next
    case None
    with Cons.prems obtain f where f: "find_property p cs = Some (f, prefix', v, behind)"
      and front: "front = c # f"
      by (auto split: option.splits)
    from Cons.IH [OF f] front show ?thesis by simp
  qed
qed

lemma match_property_complete:
  assumes "toLowerCase n = toLowerCase p" and "v \<noteq> []" and "CHR '';'' \<notin> set v"
    and "behind = [] \<or> hd behind = CHR '';''"
  shows "match_property p (n @ ''='' @ v @ behind) = Some (n @ ''='', v)"
proof -
  have len: "length n = length p"
    using assms(1) unfolding toLowerCase_def by (metis length_map)
  have tw: "takeWhile (\<lambda>d. d \<noteq> CHR '';'') (v @ behind) = v"
  proof -
    have "takeWhile (\<lambda>d. d \<noteq> CHR '';'') behind = []"
      using assms(4) by (cases behind) auto
    moreover have "\<forall>x \<in> set v. x \<noteq> CHR '';''" using assms(3) by auto
    ultimately show ?thesis by (simp add: takeWhile_append2)
  qed
  show ?thesis
    using len assms(1,2) tw by (simp add: match_property_def Let_def)
qed

lemma match_spaces_complete:
  assumes "list_all is_space ws" and "toLowerCase n = toLowerCase p" and "v \<noteq> []"
    and "CHR '';'' \<notin> set v" and "behind = [] \<or> hd behind = CHR '';''"
  shows "match_spaces p (ws @ n @ ''='' @ v @ behind) \<noteq> None"
  using assms(1)
proof (induction ws)
  case Nil
  have m: "match_property p (n @ ''='' @ v @ behind) = Some (n @ ''='', v)"
    using assms(2-5) by (rule match_property_complete)
  obtain c cs where cs: "n @ ''='' @ v @ behind = c # cs"
    by (cases "n @ ''='' @ v @ behind") auto
  show ?case
    using m unfolding append_Nil cs by (auto split: option.splits)
next
  case (Cons w ws)
  then have "match_spaces p (ws @ n @ ''='' @ v @ behind) \<noteq> None" by simp
  with Cons.prems show ?case by (auto split: option.splits)
qed

lemma find_property_leftmost:
  assumes "is_attribute_match p prefix' v behind"
  shows "\<exists>f q w b. find_property p (front @ prefix' @ v @ behind) = Some (f, q, w, b)
           \<and> length f \<le> length front"
proof -
  from assms obtain ws n where pre: "prefix' = CHR '';'' # ws @ n @ ''=''"
    and ws: "list_all is_space ws" and n: "toLowerCase n = toLowerCase p"
    and v: "v \<noteq> []" "CHR '';'' \<notin> set v" and behind: "behind = [] \<or> hd behind = CHR '';''"
    unfolding is_attribute_match_def by blast
  have m: "match_spaces p (ws @ n @ ''='' @ v @ behind) \<noteq> None"
    using ws n v behind by (rule match_spaces_complete)
  show ?thesis
  proof (induction front)
    case Nil
    from m show ?case unfolding pre by (auto split: option.splits)
  next
    case (Cons c front)
    then show ?case by (auto split: option.splits if_splits)
  qed
qed

lemma not_inherited_star: "map_of Object_prototype ''*'' = None"
  by (simp add: Object_prototype_def)

text \<open>
  For a property that is a plain word, the search finds a match exactly when the
  header holds the attribute (a semicolon, white space, the property name in any
  case, an equals sign and a non-empty value that runs to the next semicolon or to
  the end), and the match it finds is the leftmost one. Without a match the header is
  returned as it is. With a match whose value is not the name of an inherited member,
  the function follows its documentation: a key of the config gives the mapped value,
  otherwise the key \<open>*\<close> gives the fallback, a replacement that is null or empty
  removes the attribute, and with neither key the header is unchanged. An array is
  rewritten element by element.
\<close>

lemma rewriteCookieProperty_own_keys:
  assumes "plain_word property"
  shows
  "(find_property property header = None \<longleftrightarrow>
      \<not> (\<exists>front prefix' v behind.
            header = front @ prefix' @ v @ behind \<and> is_attribute_match property prefix' v behind))
 \<and> (find_property property header = None \<longrightarrow>
      rewriteCookieProperty (HeaderString header) config property = HeaderString header)
 \<and> (find_property property header = Some (front, prefix', previousValue, behind) \<longrightarrow>
      header = front @ prefix' @ previousValue @ behind
    \<and> is_attribute_match property prefix' previousValue behind
    \<and> (\<forall>f q w b. header = f @ q @ w @ b \<and> is_attribute_match property q w b
                   \<longrightarrow> length front \<le> length f)
    \<and> (map_of Object_prototype previousValue = None \<longrightarrow>
        rewriteCookieProperty (HeaderString header) config property =
          HeaderString
            (front @
             (case config previousValue of
                Some (Some new) \<Rightarrow> if new \<noteq> [] then prefix' @ new else []
              | Some None \<Rightarrow> []
              | None \<Rightarrow>
                  (case config ''*'' of
                     Some (Some new) \<Rightarrow> if new \<noteq> [] then prefix' @ new else []
                   | Some None \<Rightarrow> []
                   | None \<Rightarrow> prefix' @ previousValue))
             @ behind)))
 \<and> rewriteCookieProperty (HeaderArray headers) config property =
      HeaderArray (map (\<lambda>h. rewriteCookieProperty h config property) headers)"
proof -
  have a: "find_property property header = None \<longleftrightarrow>
      \<not> (\<exists>front prefix' v behind.
            header = front @ prefix' @ v @ behind \<and> is_attribute_match property prefix' v behind)"
  proof
    assume none: "find_property property header = None"
    show "\<not> (\<exists>front prefix' v behind.
            header = front @ prefix' @ v @ behind \<and> is_attribute_match property prefix' v behind)"
    proof
      assume "\<exists>front prefix' v behind.
            header = front @ prefix' @ v @ behind \<and> is_attribute_match property prefix' v behind"
      then obtain front prefix' v behind where "header = front @ prefix' @ v @ behind"
        "is_attribute_match property prefix' v behind" by blast
      with find_property_leftmost [of property prefix' v behind front] none
      show False by auto
    qed
  next
    assume no: "\<not> (\<exists>front prefix' v behind.
            header = front @ prefix' @ v @ behind \<and> is_attribute_match property prefix' v behind)"
    show "find_property property header = None"
    proof (cases "find_property property header")
      case None
      then show ?thesis .
    next
      case (Some r)
      obtain f q w b where "r = (f, q, w, b)" by (cases r)
      with Some find_property_sound [of property header f q w b] no show ?thesis by blast
    qed
  qed
  have b: "rewriteCookieProperty (HeaderString header) config property = HeaderString header"
    if "find_property property header = None"
    using that by simp
  have c: "rewriteCookieProperty (HeaderString header) config property =
        HeaderString
          (front @
           (case config previousValue of
              Some (Some new) \<Rightarrow> if new \<noteq> [] then prefix' @ new else []
            | Some None \<Rightarrow> []
            | None \<Rightarrow>
                (case config ''*'' of
                   Some (Some new) \<Rightarrow> if new \<noteq> [] then prefix' @ new else []
                 | Some None \<Rightarrow> []
                 | None \<Rightarrow> prefix' @ previousValue))
           @ behind)"
    if "find_property property header = Some (front, prefix', previousValue, behind)"
      and "map_of Object_prototype previousValue = None"
    using that
    by (simp add: replacer_def has_property_def get_property_def not_inherited_star
        split: option.splits)
  have d: "rewriteCookieProperty (HeaderArray headers) config property =
      HeaderArray (map (\<lambda>h. rewriteCookieProperty h config property) headers)"
    by simp
  have e: "length front \<le> length f"
    if found: "find_property property header = Some (front, prefix', previousValue, behind)"
      and other: "header = f @ q @ w @ b" "is_attribute_match property q w b" for f q w b
  proof -
    from find_property_leftmost [OF other(2), of f] found other(1)
    show ?thesis by auto
  qed
  from a b c d e find_property_sound [of property header front prefix' previousValue behind]
  show ?thesis by blast
qed

text \<open>
  Claim C8. The value \<open>constructor\<close> is no key of the config \<open>{"*": "any.com"}\<close>, so
  the fallback should replace it. The code tests \<^verbatim>\<open>previousValue in config\<close>, which
  also finds the members every object inherits: it takes the inherited function for
  the replacement and writes its text into the cookie.
\<close>

theorem inherited_name_is_taken_for_a_key:
  "rewriteCookieProperty (HeaderString ''a=b; Domain=constructor'')
     [''*'' \<mapsto> Some ''any.com''] ''domain''
   = HeaderString ''a=b; Domain=function Object() { [native code] }''"
proof -
  have "find_property ''domain'' ''a=b; Domain=constructor''
      = Some (''a=b'', ''; Domain='', ''constructor'', '''')"
    by code_simp
  then show ?thesis
    by (simp add: replacer_def has_property_def get_property_def Object_prototype_def)
qed

end
